theory Spec2Isabelle
  imports Complex_Main "HOL-Library.Word"
begin

section \<open>Python values used by the ingestion scripts\<close>

text \<open>
  A Python \<open>str\<close> is a sequence of Unicode code points; it is modelled as a list of
  natural numbers, so that the curly quotes of \<open>normalize_text\<close> and the text decoded
  from UTF-16 are ordinary values. \<open>S\<close> turns an Isabelle string literal into such a
  value. Exceptions are values of the type \<open>error\<close>; a function that may raise returns
  \<open>error + 'a\<close> with the exception on the left.
\<close>

type_synonym codepoint = nat
type_synonym str = "codepoint list"
type_synonym row = "str list"

definition S :: "string \<Rightarrow> str" where
  "S cs = map of_char cs"

definition comma :: codepoint where
  "comma = 44"

datatype strategy = PlainReadCsv | QuoteEscape | RegexOutsideQuotes | NormalizedTextParse

datatype error =
    IndexError
  | LibraryError str str
  | CouldNotDecode "str list" "error option"
  | CouldNotParse codepoint "nat option" "(strategy \<times> error option) list"

text \<open>
  \<open>LibraryError name message\<close> is an exception raised inside a library call
  (\<open>type(e).__name__\<close> and \<open>str(e)\<close>); \<open>CouldNotDecode\<close> is the \<open>RuntimeError\<close> of
  \<open>_decode_text_safely\<close> with the encodings tried and the last error.
  \<open>CouldNotParse delim mode_cols attempts\<close> is the \<open>RuntimeError\<close> that ends
  \<open>robust_read_csv\<close>: its message has the line
  "Delimiter guess: ...; head mode delimiter count: ..." and, under "Errors:", one line
  for each of the four parse attempts, in the order of the list, with the exception of
  the attempt or "n/a" (\<open>None\<close>) for an attempt that was not made.
\<close>

subsection \<open>Slices, indexing and string helpers\<close>

text \<open>
  \<open>xs[i:]\<close> and \<open>xs[:j]\<close>: a negative bound counts from the end, and a bound outside
  the list is clamped, never an error.
\<close>

definition slice_bound :: "int \<Rightarrow> nat \<Rightarrow> nat" where
  "slice_bound i n = (if i < 0 then nat (max 0 (i + int n)) else min (nat i) n)"

definition slice_from :: "int \<Rightarrow> 'a list \<Rightarrow> 'a list" where
  "slice_from i xs = drop (slice_bound i (length xs)) xs"

definition slice_to :: "int \<Rightarrow> 'a list \<Rightarrow> 'a list" where
  "slice_to j xs = take (slice_bound j (length xs)) xs"

text \<open>
  \<open>xs[i]\<close> as a read and as an assignment target: a negative index counts from the end,
  and an index outside the list raises \<open>IndexError\<close>.
\<close>

definition item_pos :: "int \<Rightarrow> nat \<Rightarrow> error + nat" where
  "item_pos i n =
     (if 0 \<le> i \<and> i < int n then Inr (nat i)
      else if i < 0 \<and> 0 \<le> i + int n then Inr (nat (i + int n))
      else Inl IndexError)"

text \<open>\<open>sep.join(parts)\<close> for a one-character separator.\<close>

fun py_join :: "codepoint \<Rightarrow> str list \<Rightarrow> str" where
  "py_join sep [] = []"
| "py_join sep [p] = p"
| "py_join sep (p # q # ps) = p @ [sep] @ py_join sep (q # ps)"

text \<open>\<open>s.rstrip(',')\<close>: every trailing comma is removed.\<close>

definition rstrip_comma :: "str \<Rightarrow> str" where
  "rstrip_comma s = rev (dropWhile (\<lambda>c. c = comma) (rev s))"

text \<open>\<open>str(i)\<close> for a non-negative integer, used by the placeholder header names.\<close>

fun decimal :: "nat \<Rightarrow> str" where
  "decimal n = (if n < 10 then [48 + n] else decimal (n div 10) @ [48 + n mod 10])"

declare decimal.simps [simp del]

text \<open>\<open>xs.index(x)\<close> for an \<open>x\<close> that occurs in \<open>xs\<close> (the caller tests \<open>x in xs\<close> first).\<close>

fun first_index :: "'a list \<Rightarrow> 'a \<Rightarrow> nat" where
  "first_index [] x = 0"
| "first_index (y # ys) x = (if y = x then 0 else Suc (first_index ys x))"

section \<open>Width Normalizer: \<open>load_csv_force_width\<close> and \<open>load_csv_force_width_resilient\<close>\<close>

text \<open>
  Both loaders run the same statements on the parsed rows (read_csv2.py lines 29-82,
  read_csv3.py lines 83-123). Reading the file and \<open>csv.reader\<close> are library calls, so
  the model starts at their result, the list \<open>rows\<close>. A pandas frame is represented by
  the two arguments it is built from; \<open>pd.DataFrame()\<close> is the frame with neither rows
  nor columns. pandas refuses rows whose width differs from the number of column names;
  that check is not part of the model, and the theorems below that say a frame is
  returned are about \<open>expected_cols \<ge> 1\<close>, where header and rows are shown to have the
  same width. What the loader prints is returned next to the frame.
\<close>

datatype frame = DataFrame (data: "row list") (columns: row)

datatype printed =
    Loaded nat int "codepoint option"
  | LongRows int nat
  | ShortRows int nat

record tally =
  fixed_rows :: "row list"
  long_rows :: nat
  short_rows :: nat

text \<open>
  The header: padded with \<open>__placeholder_0\<close>, \<open>__placeholder_1\<close>, ... when it is
  shorter than \<open>expected_cols\<close>, cut to \<open>header[:expected_cols]\<close> when it is longer.
\<close>

definition placeholders :: "int \<Rightarrow> row" where
  "placeholders n = map (\<lambda>i. S ''__placeholder_'' @ decimal i) [0 ..< nat n]"

definition adjust_header :: "int \<Rightarrow> row \<Rightarrow> row" where
  "adjust_header expected_cols header =
     (if int (length header) < expected_cols
        then header @ placeholders (expected_cols - int (length header))
      else if int (length header) > expected_cols
        then slice_to expected_cols header
      else header)"

text \<open>
  The merge target: \<open>merge_into and merge_into in header\<close> holds for a name that is
  given, not the empty string, and a column of the adjusted header.
\<close>

definition target_index :: "int \<Rightarrow> str option \<Rightarrow> row \<Rightarrow> int" where
  "target_index expected_cols merge_into header =
     (case merge_into of
        None \<Rightarrow> expected_cols - 1
      | Some m \<Rightarrow>
          if m \<noteq> [] \<and> m \<in> set header then int (first_index header m)
          else expected_cols - 1)"

text \<open>
  \<open>kept[i] = (kept[i] + ',' + ','.join(overflow)).rstrip(',')\<close>, the statement of both
  branches of the merge.
\<close>

definition merge_at :: "row \<Rightarrow> int \<Rightarrow> row \<Rightarrow> error + row" where
  "merge_at kept i overflow =
     (case item_pos i (length kept) of
        Inl e \<Rightarrow> Inl e
      | Inr k \<Rightarrow> Inr (kept[k := rstrip_comma (kept ! k @ [comma] @ py_join comma overflow)]))"

text \<open>The row that one pass of the loop appends to \<open>fixed_rows\<close>.\<close>

definition fix_row :: "int \<Rightarrow> int \<Rightarrow> row \<Rightarrow> error + row" where
  "fix_row expected_cols target_idx r =
     (if int (length r) = expected_cols then Inr r
      else if int (length r) > expected_cols then
        (let overflow = slice_from (expected_cols - 1) r;
             kept = slice_to expected_cols r
         in if target_idx < expected_cols - 1
              then merge_at kept target_idx overflow
              else merge_at kept (- 1) overflow)
      else Inr (r @ replicate (nat (expected_cols - int (length r))) []))"

text \<open>The loop over the body rows with its two counters; an exception ends it.\<close>

fun fix_rows :: "int \<Rightarrow> int \<Rightarrow> row list \<Rightarrow> tally \<Rightarrow> error + tally" where
  "fix_rows expected_cols target_idx [] t = Inr t"
| "fix_rows expected_cols target_idx (r # body) t =
     (case fix_row expected_cols target_idx r of
        Inl e \<Rightarrow> Inl e
      | Inr kept \<Rightarrow>
          fix_rows expected_cols target_idx body
            (if int (length r) = expected_cols
               then t\<lparr>fixed_rows := fixed_rows t @ [kept]\<rparr>
             else if int (length r) > expected_cols
               then t\<lparr>fixed_rows := fixed_rows t @ [kept], long_rows := long_rows t + 1\<rparr>
             else t\<lparr>fixed_rows := fixed_rows t @ [kept], short_rows := short_rows t + 1\<rparr>))"

definition report :: "int \<Rightarrow> codepoint option \<Rightarrow> tally \<Rightarrow> printed list" where
  "report expected_cols delim t =
     [Loaded (length (fixed_rows t)) expected_cols delim]
     @ (if long_rows t \<noteq> 0 then [LongRows expected_cols (long_rows t)] else [])
     @ (if short_rows t \<noteq> 0 then [ShortRows expected_cols (short_rows t)] else [])"

definition force_width ::
  "codepoint option \<Rightarrow> row list \<Rightarrow> int \<Rightarrow> str option \<Rightarrow> error + frame \<times> printed list" where
  "force_width delim rows expected_cols merge_into =
     (case rows of
        [] \<Rightarrow> Inr (DataFrame [] [], [])
      | header0 # body \<Rightarrow>
          (let header = adjust_header expected_cols header0;
               target_idx = target_index expected_cols merge_into header
           in case fix_rows expected_cols target_idx body
                     \<lparr>fixed_rows = [], long_rows = 0, short_rows = 0\<rparr> of
                Inl e \<Rightarrow> Inl e
              | Inr t \<Rightarrow> Inr (DataFrame (fixed_rows t) header, report expected_cols delim t)))"

text \<open>
  read_csv2.py prints no delimiter; read_csv3.py prints the delimiter it parsed with.
\<close>

definition load_csv_force_width ::
  "row list \<Rightarrow> int \<Rightarrow> str option \<Rightarrow> error + frame \<times> printed list" where
  "load_csv_force_width rows expected_cols merge_into =
     force_width None rows expected_cols merge_into"

definition load_csv_force_width_resilient ::
  "row list \<Rightarrow> codepoint \<Rightarrow> int \<Rightarrow> str option \<Rightarrow> error + frame \<times> printed list" where
  "load_csv_force_width_resilient rows delim expected_cols merge_into =
     force_width (Some delim) rows expected_cols merge_into"

section \<open>Byte Decoder: \<open>_looks_utf16\<close> and \<open>_decode_text_safely\<close>\<close>

type_synonym byte = "8 word"

definition startswith :: "'a list \<Rightarrow> 'a list \<Rightarrow> bool" where
  "startswith raw prefix = (take (length prefix) raw = prefix)"

text \<open>
  \<open>sample.count(b'\x00') / len(sample)\<close>. Python divides the two integers exactly and
  rounds once to a float; the model keeps the exact quotient. For a count between 0 and
  200 the comparison with the float literal \<open>0.1\<close> decides as the exact comparison with
  one tenth does (\<open>20 / 200\<close> rounds to the very float that \<open>0.1\<close> denotes).
\<close>

definition zero_ratio :: "byte list \<Rightarrow> rat" where
  "zero_ratio sample = of_nat (count_list sample 0) / of_nat (length sample)"

definition looks_utf16 :: "byte list \<Rightarrow> bool" where
  "looks_utf16 raw =
     (if startswith raw [0xFF, 0xFE] \<or> startswith raw [0xFE, 0xFF] then True
      else if 200 \<le> length raw then
        (let sample = slice_to 200 raw in 1 / 10 < zero_ratio sample)
      else False)"

text \<open>\<open>text.replace('\x00', '')\<close>.\<close>

definition replace_nul :: "str \<Rightarrow> str" where
  "replace_nul text = filter (\<lambda>c. c \<noteq> 0) text"

text \<open>
  The codecs belong to the Python library; \<open>codec enc replace raw\<close> stands for
  \<open>raw.decode(enc)\<close> when \<open>replace\<close> is false and for \<open>raw.decode(enc, errors='replace')\<close>
  when it is true, and is a parameter of the model. Reading the file is the caller's;
  the model starts at the bytes \<open>raw\<close>.
\<close>

type_synonym codec = "str \<Rightarrow> bool \<Rightarrow> byte list \<Rightarrow> error + str"

fun try_encodings :: "codec \<Rightarrow> byte list \<Rightarrow> str list \<Rightarrow> str list \<Rightarrow> error option \<Rightarrow> error + str" where
  "try_encodings codec raw encodings [] last_err = Inl (CouldNotDecode encodings last_err)"
| "try_encodings codec raw encodings (enc # rest) last_err =
     (case codec enc True raw of
        Inr text \<Rightarrow> Inr (replace_nul text)
      | Inl e \<Rightarrow> try_encodings codec raw encodings rest (Some e))"

definition decode_text_safely :: "codec \<Rightarrow> byte list \<Rightarrow> str list \<Rightarrow> error + str" where
  "decode_text_safely codec raw encodings =
     (if looks_utf16 raw then
        (case codec (S ''utf-16'') False raw of
           Inr text \<Rightarrow> Inr (replace_nul text)
         | Inl e \<Rightarrow> try_encodings codec raw encodings encodings None)
      else try_encodings codec raw encodings encodings None)"

definition default_encodings :: "str list" where
  "default_encodings = [S ''utf-8-sig'', S ''utf-8'', S ''cp1252'', S ''latin1'']"

section \<open>Delimiter Inferencer: \<open>_detect_delimiter\<close> and \<open>_detect_delim_from_text\<close>\<close>

subsection \<open>Library functions on strings\<close>

text \<open>
  \<open>str.isspace\<close> of one character, the test behind \<open>ln.strip()\<close>: the code points
  that CPython treats as whitespace.
\<close>

definition is_space :: "codepoint \<Rightarrow> bool" where
  "is_space c =
     (c \<in> set [9, 10, 11, 12, 13, 28, 29, 30, 31, 32, 133, 160, 5760,
               8232, 8233, 8239, 8287, 12288]
      \<or> (8192 \<le> c \<and> c \<le> 8202))"

definition py_strip :: "str \<Rightarrow> str" where
  "py_strip s = rev (dropWhile is_space (rev (dropWhile is_space s)))"

text \<open>\<open>if ln.strip()\<close>: the stripped line is not the empty string.\<close>

definition nonblank :: "str \<Rightarrow> bool" where
  "nonblank line = (py_strip line \<noteq> [])"

text \<open>
  \<open>text.splitlines(keepends)\<close>: a line ends at \<open>\n\<close>, \<open>\r\<close>, \<open>\r\n\<close>, \<open>\v\<close>, \<open>\f\<close>,
  \<open>\x1c\<close>, \<open>\x1d\<close>, \<open>\x1e\<close>, \<open>\x85\<close>, U+2028 or U+2029; text after the last
  line end is a line only when it is not empty.
\<close>

definition is_linebreak :: "codepoint \<Rightarrow> bool" where
  "is_linebreak c = (c \<in> set [10, 11, 12, 13, 28, 29, 30, 133, 8232, 8233])"

fun splitlines_from :: "bool \<Rightarrow> str \<Rightarrow> str \<Rightarrow> str list" where
  "splitlines_from keepends cur [] = (if cur = [] then [] else [cur])"
| "splitlines_from keepends cur [c] =
     (if is_linebreak c then [cur @ (if keepends then [c] else [])] else [cur @ [c]])"
| "splitlines_from keepends cur (c # d # cs) =
     (if c = 13 \<and> d = 10
        then (cur @ (if keepends then [c, d] else [])) # splitlines_from keepends [] cs
      else if is_linebreak c
        then (cur @ (if keepends then [c] else [])) # splitlines_from keepends [] (d # cs)
      else splitlines_from keepends (cur @ [c]) (d # cs))"

definition splitlines :: "bool \<Rightarrow> str \<Rightarrow> str list" where
  "splitlines keepends text = splitlines_from keepends [] text"

subsection \<open>\<open>Counter(counts).most_common(1)[0][0]\<close>\<close>

text \<open>
  A \<open>Counter\<close> keeps its keys in the order they were first seen; \<open>most_common(1)\<close>
  returns the first entry with the largest count, or the empty list for no entries.
\<close>

fun counter_add :: "nat \<Rightarrow> (nat \<times> nat) list \<Rightarrow> (nat \<times> nat) list" where
  "counter_add x [] = [(x, 1)]"
| "counter_add x ((k, n) # kvs) =
     (if k = x then (k, n + 1) # kvs else (k, n) # counter_add x kvs)"

definition Counter :: "nat list \<Rightarrow> (nat \<times> nat) list" where
  "Counter xs = foldl (\<lambda>c x. counter_add x c) [] xs"

fun first_largest :: "(nat \<times> nat) \<Rightarrow> (nat \<times> nat) list \<Rightarrow> (nat \<times> nat)" where
  "first_largest best [] = best"
| "first_largest best (kv # kvs) = first_largest (if snd best < snd kv then kv else best) kvs"

definition most_common_1 :: "(nat \<times> nat) list \<Rightarrow> (nat \<times> nat) list" where
  "most_common_1 c = (case c of [] \<Rightarrow> [] | kv # kvs \<Rightarrow> [first_largest kv kvs])"

definition mode_of :: "nat list \<Rightarrow> error + nat" where
  "mode_of counts =
     (case most_common_1 (Counter counts) of [] \<Rightarrow> Inl IndexError | kv # _ \<Rightarrow> Inr (fst kv))"

subsection \<open>Scoring and selection\<close>

text \<open>
  \<open>sum((c - mode)**2 for c in counts) / max(len(counts), 1)\<close>. The sum is an integer
  and \<open>/\<close> divides two integers into a float: the exact quotient, rounded. A float is a
  rational number, and floats are compared and negated as the numbers they are. The
  rounding is not fixed by the model: the division is the parameter \<open>fdiv\<close> of every
  function below, so that what is proved holds for the division that Python performs,
  also where two different quotients round to the same float. \<open>exact_div\<close> is the
  division without rounding; the concrete examples use it where the quotients are
  \<open>0\<close>, \<open>1/3\<close> and the like, which rounding keeps in the same order.
\<close>

type_synonym true_division = "int \<Rightarrow> nat \<Rightarrow> rat"

definition exact_div :: true_division where
  "exact_div a n = of_int a / of_nat n"

definition variance :: "true_division \<Rightarrow> nat list \<Rightarrow> nat \<Rightarrow> rat" where
  "variance fdiv counts mode =
     fdiv (sum_list (map (\<lambda>c. (int c - int mode) ^ 2) counts)) (max (length counts) 1)"

type_synonym score = "int \<times> rat"

definition line_counts :: "str list \<Rightarrow> codepoint \<Rightarrow> nat list" where
  "line_counts lines d = map (\<lambda>line. count_list line d) lines"

definition score_of :: "true_division \<Rightarrow> nat list \<Rightarrow> error + score" where
  "score_of fdiv counts =
     (case mode_of counts of
        Inl e \<Rightarrow> Inl e
      | Inr mode \<Rightarrow> Inr (int mode, - variance fdiv counts mode))"

text \<open>\<open>scores[d] = v\<close>: a key already present keeps its place.\<close>

fun dict_set :: "'k \<Rightarrow> 'v \<Rightarrow> ('k \<times> 'v) list \<Rightarrow> ('k \<times> 'v) list" where
  "dict_set k v [] = [(k, v)]"
| "dict_set k v ((k', v') # kvs) =
     (if k' = k then (k, v) # kvs else (k', v') # dict_set k v kvs)"

text \<open>
  The loop \<open>for d in candidates\<close> over the non-blank lines; a candidate is skipped
  (\<open>continue\<close>) exactly when \<open>counts\<close> is the empty list.
\<close>

fun score_candidates ::
  "true_division \<Rightarrow> str list \<Rightarrow> codepoint list \<Rightarrow> (codepoint \<times> score) list
     \<Rightarrow> error + (codepoint \<times> score) list" where
  "score_candidates fdiv lines [] scores = Inr scores"
| "score_candidates fdiv lines (d # ds) scores =
     (let counts = line_counts lines d
      in if counts = [] then score_candidates fdiv lines ds scores
         else (case score_of fdiv counts of
                 Inl e \<Rightarrow> Inl e
               | Inr sc \<Rightarrow> score_candidates fdiv lines ds (dict_set d sc scores)))"

text \<open>
  \<open>sorted(scores.items(), key=lambda kv: (kv[1][0], kv[1][1]), reverse=True)\<close>: the
  keys are compared as tuples, and entries with equal keys keep their order.
\<close>

definition score_less :: "score \<Rightarrow> score \<Rightarrow> bool" where
  "score_less a b = (fst a < fst b \<or> (fst a = fst b \<and> snd a < snd b))"

fun insert_desc :: "(codepoint \<times> score) \<Rightarrow> (codepoint \<times> score) list \<Rightarrow> (codepoint \<times> score) list" where
  "insert_desc x [] = [x]"
| "insert_desc x (y # ys) =
     (if score_less (snd x) (snd y) then y # insert_desc x ys else x # y # ys)"

definition sorted_desc :: "(codepoint \<times> score) list \<Rightarrow> (codepoint \<times> score) list" where
  "sorted_desc kvs = foldr insert_desc kvs []"

definition best_delimiter :: "(codepoint \<times> score) list \<Rightarrow> error + codepoint" where
  "best_delimiter scores =
     (case sorted_desc scores of [] \<Rightarrow> Inl IndexError | kv # _ \<Rightarrow> Inr (fst kv))"

definition default_candidates :: "codepoint list" where
  "default_candidates = [44, 59, 124, 9]"

text \<open>read_csv.py: \<open>_detect_delimiter(sample_lines, candidates)\<close>, \<open>None\<close> for no scores.\<close>

definition detect_delimiter ::
  "true_division \<Rightarrow> str list \<Rightarrow> codepoint list \<Rightarrow> error + codepoint option" where
  "detect_delimiter fdiv sample_lines candidates =
     (case score_candidates fdiv (filter nonblank sample_lines) candidates [] of
        Inl e \<Rightarrow> Inl e
      | Inr scores \<Rightarrow>
          if scores = [] then Inr None
          else (case best_delimiter scores of Inl e \<Rightarrow> Inl e | Inr d \<Rightarrow> Inr (Some d)))"

text \<open>read_csv3.py: \<open>_detect_delim_from_text(text, candidates)\<close>, a comma for no scores.\<close>

definition detect_delim_from_text ::
  "true_division \<Rightarrow> str \<Rightarrow> codepoint list \<Rightarrow> error + codepoint" where
  "detect_delim_from_text fdiv text candidates =
     (let lines = filter nonblank (slice_to 200 (splitlines False text))
      in case score_candidates fdiv lines candidates [] of
           Inl e \<Rightarrow> Inl e
         | Inr scores \<Rightarrow> if scores = [] then Inr comma else best_delimiter scores)"

text \<open>read_csv.py line 30: \<open>delim = _detect_delimiter(head_lines) or ','\<close>.\<close>

definition delimiter_guess :: "true_division \<Rightarrow> str list \<Rightarrow> error + codepoint" where
  "delimiter_guess fdiv head_lines =
     (case detect_delimiter fdiv head_lines default_candidates of
        Inl e \<Rightarrow> Inl e
      | Inr None \<Rightarrow> Inr comma
      | Inr (Some d) \<Rightarrow> Inr d)"

section \<open>The modal count, stated without the counter\<close>

text \<open>
  The spec's modal count is the most frequently occurring value among the per-line
  counts. \<open>modal_count counts m\<close> says so directly in terms of the list: \<open>m\<close> occurs in
  \<open>counts\<close>, no value occurs more often, and of the values that occur as often \<open>m\<close> is
  the one met first. The theorems below state the results of \<open>mode_of\<close> and \<open>head_mode\<close>
  through this predicate.
\<close>

definition modal_count :: "nat list \<Rightarrow> nat \<Rightarrow> bool" where
  "modal_count counts m =
     (m \<in> set counts
      \<and> (\<forall>c\<in>set counts. count_list counts c \<le> count_list counts m)
      \<and> (\<forall>c\<in>set counts. count_list counts c = count_list counts m
             \<longrightarrow> first_index counts m \<le> first_index counts c))"

text \<open>
  A property of a sorted list of scores, used in the proofs below: no entry after the
  first has a larger score than the first.
\<close>

definition head_is_largest :: "(codepoint \<times> score) list \<Rightarrow> bool" where
  "head_is_largest kvs =
     (case kvs of [] \<Rightarrow> True | kv # rest \<Rightarrow> \<forall>y\<in>set rest. \<not> score_less (snd kv) (snd y))"

section \<open>Fallback Orchestrator: \<open>robust_read_csv\<close>\<close>











section \<open>Properties of the Width Normalizer\<close>

subsection \<open>Helper lemmas\<close>

lemma fix_rows_exact:
  "\<forall>r\<in>set body. int (length r) = expected_cols \<Longrightarrow>
   fix_rows expected_cols target_idx body t = Inr (t\<lparr>fixed_rows := fixed_rows t @ body\<rparr>)"
proof (induction body arbitrary: t)
  case Nil
  then show ?case by simp
next
  case (Cons r body)
  then show ?case by (simp add: fix_row_def)
qed

lemma adjust_header_exact:
  "int (length header) = expected_cols \<Longrightarrow> adjust_header expected_cols header = header"
  by (simp add: adjust_header_def)

lemma adjust_header_length:
  "0 \<le> expected_cols \<Longrightarrow> int (length (adjust_header expected_cols header)) = expected_cols"
  by (auto simp add: adjust_header_def placeholders_def slice_to_def slice_bound_def)

lemma target_index_range:
  "1 \<le> expected_cols \<Longrightarrow> 0 \<le> target_index expected_cols merge_into header"
  by (simp add: target_index_def split: option.splits)

lemma fix_row_width:
  assumes "1 \<le> expected_cols" and "0 \<le> target_idx"
  shows "\<exists>kept. fix_row expected_cols target_idx r = Inr kept \<and> int (length kept) = expected_cols"
  using assms
  by (auto simp add: fix_row_def Let_def merge_at_def item_pos_def slice_to_def slice_bound_def)

lemma fix_rows_width:
  assumes "1 \<le> expected_cols" and "0 \<le> target_idx"
  shows "\<exists>t' new. fix_rows expected_cols target_idx body t = Inr t'
           \<and> fixed_rows t' = fixed_rows t @ new \<and> length new = length body
           \<and> (\<forall>row\<in>set new. int (length row) = expected_cols)"
proof (induction body arbitrary: t)
  case Nil
  then show ?case by simp
next
  case (Cons r body)
  obtain kept where k: "fix_row expected_cols target_idx r = Inr kept"
      "int (length kept) = expected_cols"
    using fix_row_width [OF assms] by blast
  define u where "u = (if int (length r) = expected_cols
               then t\<lparr>fixed_rows := fixed_rows t @ [kept]\<rparr>
             else if int (length r) > expected_cols
               then t\<lparr>fixed_rows := fixed_rows t @ [kept], long_rows := long_rows t + 1\<rparr>
             else t\<lparr>fixed_rows := fixed_rows t @ [kept], short_rows := short_rows t + 1\<rparr>)"
  have u: "fixed_rows u = fixed_rows t @ [kept]" by (simp add: u_def)
  obtain t' new where n: "fix_rows expected_cols target_idx body u = Inr t'"
      "fixed_rows t' = fixed_rows u @ new" "length new = length body"
      "\<forall>row\<in>set new. int (length row) = expected_cols"
    using Cons.IH [of u] by blast
  have "fix_rows expected_cols target_idx (r # body) t = Inr t'"
    using k n(1) by (simp add: u_def)
  moreover have "fixed_rows t' = fixed_rows t @ (kept # new)" using n(2) u by simp
  moreover have "length (kept # new) = length (r # body)" using n(3) by simp
  moreover have "\<forall>row\<in>set (kept # new). int (length row) = expected_cols"
    using n(4) k(2) by simp
  ultimately show ?case by blast
qed

lemma fix_rows_pointwise:
  assumes "1 \<le> expected_cols" and "0 \<le> target_idx"
  shows "\<exists>t' new. fix_rows expected_cols target_idx body t = Inr t'
           \<and> fixed_rows t' = fixed_rows t @ new \<and> length new = length body
           \<and> (\<forall>i<length body. fix_row expected_cols target_idx (body ! i) = Inr (new ! i))"
proof (induction body arbitrary: t)
  case Nil
  then show ?case by simp
next
  case (Cons r body)
  obtain kept where k: "fix_row expected_cols target_idx r = Inr kept"
    using fix_row_width [OF assms] by blast
  define u where "u = (if int (length r) = expected_cols
               then t\<lparr>fixed_rows := fixed_rows t @ [kept]\<rparr>
             else if int (length r) > expected_cols
               then t\<lparr>fixed_rows := fixed_rows t @ [kept], long_rows := long_rows t + 1\<rparr>
             else t\<lparr>fixed_rows := fixed_rows t @ [kept], short_rows := short_rows t + 1\<rparr>)"
  have u: "fixed_rows u = fixed_rows t @ [kept]" by (simp add: u_def)
  obtain t' new where n: "fix_rows expected_cols target_idx body u = Inr t'"
      "fixed_rows t' = fixed_rows u @ new" "length new = length body"
      "\<forall>i<length body. fix_row expected_cols target_idx (body ! i) = Inr (new ! i)"
    using Cons.IH [of u] by blast
  have "fix_rows expected_cols target_idx (r # body) t = Inr t'"
    using k n(1) by (simp add: u_def)
  moreover have "fixed_rows t' = fixed_rows t @ (kept # new)" using n(2) u by simp
  moreover have "length (kept # new) = length (r # body)" using n(3) by simp
  moreover have "\<forall>i<length (r # body).
                   fix_row expected_cols target_idx ((r # body) ! i) = Inr ((kept # new) ! i)"
  proof (intro allI impI)
    fix i assume "i < length (r # body)"
    then show "fix_row expected_cols target_idx ((r # body) ! i) = Inr ((kept # new) ! i)"
      using k n(4) by (cases i) simp_all
  qed
  ultimately show ?case by blast
qed

subsection \<open>Overflow rows\<close>

text \<open>
  Claim C1. A row longer than \<open>expected_cols\<close>, with no merge target, should keep its
  first \<open>expected_cols - 1\<close> fields and end in the comma-join of the fields from
  position \<open>expected_cols - 1\<close> onward, so that \<open>["a","b","c","d"]\<close> at width 3 becomes
  \<open>["a","b","c,d"]\<close>. The code does not do this: \<open>overflow = r[expected_cols-1:]\<close>
  (commented "fields beyond the expected width") starts one field early, and the last
  kept field is prepended to it again, so the field at position \<open>expected_cols - 1\<close>
  appears twice. The theorem evaluates the loop body and the whole loader at the
  claim's own example: the result is \<open>["a","b","c,c,d"]\<close>.
\<close>

theorem overflow_merge_repeats_last_kept_field:
  "fix_row 3 2 [S ''a'', S ''b'', S ''c'', S ''d''] = Inr [S ''a'', S ''b'', S ''c,c,d'']
   \<and> [S ''a'', S ''b'', S ''c,c,d''] \<noteq> [S ''a'', S ''b'', S ''c,d'']
   \<and> load_csv_force_width
        [[S ''x'', S ''y'', S ''z''], [S ''a'', S ''b'', S ''c'', S ''d'']] 3 None
      = Inr (DataFrame [[S ''a'', S ''b'', S ''c,c,d'']] [S ''x'', S ''y'', S ''z''],
             [Loaded 1 3 None, LongRows 3 1])"
  by (simp add: load_csv_force_width_def force_width_def adjust_header_def target_index_def
      fix_row_def slice_from_def slice_to_def slice_bound_def merge_at_def item_pos_def
      rstrip_comma_def S_def comma_def report_def)

subsection \<open>Row count and row width\<close>

text \<open>
  Claim C2, as amended. For every \<open>expected_cols \<ge> 1\<close>, every list of parsed rows and
  every merge target, the loader returns a frame; the frame has as many body rows as
  the input has after its header, and every one of them has exactly \<open>expected_cols\<close>
  fields, as many as the adjusted header has names.
\<close>

theorem force_width_keeps_every_row_at_width:
  assumes "1 \<le> expected_cols"
  shows "\<exists>fixed header out.
           load_csv_force_width rows expected_cols merge_into = Inr (DataFrame fixed header, out)
           \<and> length fixed = length (tl rows)
           \<and> (\<forall>row\<in>set fixed. int (length row) = expected_cols)
           \<and> (rows = [] \<or> int (length header) = expected_cols)"
proof (cases rows)
  case Nil
  then show ?thesis by (simp add: load_csv_force_width_def force_width_def)
next
  case (Cons header0 body)
  define header where "header = adjust_header expected_cols header0"
  define tgt where "tgt = target_index expected_cols merge_into header"
  have hl: "int (length header) = expected_cols"
    using assms by (simp add: header_def adjust_header_length)
  have "0 \<le> tgt" using assms by (simp add: tgt_def target_index_range)
  then obtain t' new where n:
      "fix_rows expected_cols tgt body \<lparr>fixed_rows = [], long_rows = 0, short_rows = 0\<rparr> = Inr t'"
      "fixed_rows t' = new" "length new = length body"
      "\<forall>row\<in>set new. int (length row) = expected_cols"
    using fix_rows_width [OF assms, of tgt body "\<lparr>fixed_rows = [], long_rows = 0, short_rows = 0\<rparr>"]
    by auto
  have "load_csv_force_width rows expected_cols merge_into
          = Inr (DataFrame new header, report expected_cols None t')"
    using n(1,2) Cons by (simp add: load_csv_force_width_def force_width_def header_def tgt_def)
  then show ?thesis using n(3,4) hl Cons by auto
qed

theorem force_width_keeps_every_row_at_width_witness:
  "(1::int) \<le> 3 \<and> (\<exists>fixed header out.
      load_csv_force_width
        [map S [''h1'', ''h2''], map S [''a'', ''b'', ''c'', ''d''], map S [''a''],
         map S [''a'', ''b'', ''c'']] 3 None = Inr (DataFrame fixed header, out)
      \<and> length fixed
          = length (tl [map S [''h1'', ''h2''], map S [''a'', ''b'', ''c'', ''d''], map S [''a''],
                        map S [''a'', ''b'', ''c'']])
      \<and> (\<forall>row\<in>set fixed. int (length row) = 3)
      \<and> int (length header) = 3)"
  using force_width_keeps_every_row_at_width
    [of 3 "[map S [''h1'', ''h2''], map S [''a'', ''b'', ''c'', ''d''], map S [''a''],
            map S [''a'', ''b'', ''c'']]" None]
  by simp

text \<open>
  The claim as stated, for every \<open>expected_cols\<close>, fails. At \<open>expected_cols = -1\<close> the
  slices count from the end and the loader returns a frame whose only body row has one
  field; at \<open>expected_cols = 0\<close> a non-empty body row makes \<open>kept\<close> empty and
  \<open>kept[-1]\<close> raises, so no frame is returned at all.
\<close>

theorem force_width_nonpositive_width_counterexample:
  "load_csv_force_width [[S ''h1'', S ''h2''], [S ''a'', S ''b'']] (- 1) None
     = Inr (DataFrame [[S ''a,a,b'']] [S ''h1''], [Loaded 1 (- 1) None, LongRows (- 1) 1])
   \<and> int (length [S ''a,a,b'']) \<noteq> - 1
   \<and> load_csv_force_width [[S ''h''], [S ''a'']] 0 None = Inl IndexError"
  by (simp add: load_csv_force_width_def force_width_def adjust_header_def target_index_def
      fix_row_def slice_from_def slice_to_def slice_bound_def merge_at_def item_pos_def
      rstrip_comma_def S_def comma_def report_def)

subsection \<open>Short rows\<close>

text \<open>
  Claim C7. When the body row at position \<open>i\<close> has fewer than \<open>expected_cols\<close> fields,
  both loaders return a frame, with as many rows as the body, whose row at position
  \<open>i\<close> is that body row followed by empty strings up to length \<open>expected_cols\<close>; the
  fields of the row stay where they were. The witness is the row \<open>["a"]\<close> at width 3,
  which both loaders return as \<open>["a","",""]\<close>.
\<close>

theorem short_row_is_right_padded:
  assumes "i < length body" and "int (length (body ! i)) < expected_cols"
  shows "\<exists>fixed header' out out'.
           load_csv_force_width (header # body) expected_cols merge_into
             = Inr (DataFrame fixed header', out)
         \<and> load_csv_force_width_resilient (header # body) delim expected_cols merge_into
             = Inr (DataFrame fixed header', out')
         \<and> length fixed = length body
         \<and> fixed ! i = body ! i @ replicate (nat (expected_cols - int (length (body ! i)))) []
         \<and> int (length (fixed ! i)) = expected_cols
         \<and> take (length (body ! i)) (fixed ! i) = body ! i"
proof -
  have ec: "1 \<le> expected_cols" using assms(2) by simp
  define header' where "header' = adjust_header expected_cols header"
  define tgt where "tgt = target_index expected_cols merge_into header'"
  have "0 \<le> tgt" using ec by (simp add: tgt_def target_index_range)
  then obtain t' new where n:
      "fix_rows expected_cols tgt body \<lparr>fixed_rows = [], long_rows = 0, short_rows = 0\<rparr> = Inr t'"
      "fixed_rows t' = new" "length new = length body"
      "\<forall>i<length body. fix_row expected_cols tgt (body ! i) = Inr (new ! i)"
    using fix_rows_pointwise [OF ec, of tgt body "\<lparr>fixed_rows = [], long_rows = 0, short_rows = 0\<rparr>"]
    by auto
  have "fix_row expected_cols tgt (body ! i) = Inr (new ! i)" using n(4) assms(1) by simp
  then have row: "new ! i = body ! i @ replicate (nat (expected_cols - int (length (body ! i)))) []"
    using assms(2) by (simp add: fix_row_def)
  have a: "load_csv_force_width (header # body) expected_cols merge_into
             = Inr (DataFrame new header', report expected_cols None t')"
    using n(1,2) by (simp add: load_csv_force_width_def force_width_def header'_def tgt_def)
  have b: "load_csv_force_width_resilient (header # body) delim expected_cols merge_into
             = Inr (DataFrame new header', report expected_cols (Some delim) t')"
    using n(1,2)
    by (simp add: load_csv_force_width_resilient_def force_width_def header'_def tgt_def)
  have c: "int (length (new ! i)) = expected_cols" using assms(2) by (simp add: row)
  have d: "take (length (body ! i)) (new ! i) = body ! i" by (simp add: row)
  show ?thesis using a b n(3) row c d by blast
qed

theorem short_row_is_right_padded_witness:
  "load_csv_force_width [[S ''h''], [S ''a'']] 3 None
     = Inr (DataFrame [[S ''a'', S '''', S '''']]
              [S ''h'', S ''__placeholder_0'', S ''__placeholder_1''],
            [Loaded 1 3 None, ShortRows 3 1])
   \<and> load_csv_force_width_resilient [[S ''h''], [S ''a'']] 44 3 None
     = Inr (DataFrame [[S ''a'', S '''', S '''']]
              [S ''h'', S ''__placeholder_0'', S ''__placeholder_1''],
            [Loaded 1 3 (Some 44), ShortRows 3 1])
   \<and> (\<exists>fixed header' out out'.
           load_csv_force_width ([S ''h''] # [[S ''a'']]) 3 None
             = Inr (DataFrame fixed header', out)
         \<and> load_csv_force_width_resilient ([S ''h''] # [[S ''a'']]) 44 3 None
             = Inr (DataFrame fixed header', out')
         \<and> length fixed = length [[S ''a'']]
         \<and> fixed ! 0 = [S ''a''] @ replicate (nat (3 - int (length [S ''a'']))) []
         \<and> int (length (fixed ! 0)) = 3
         \<and> take (length [S ''a'']) (fixed ! 0) = [S ''a''])"
proof -
  have a: "(0::nat) < length [[S ''a'']]" by simp
  have b: "int (length ([[S ''a'']] ! 0)) < 3" by simp
  have v: "load_csv_force_width [[S ''h''], [S ''a'']] 3 None
     = Inr (DataFrame [[S ''a'', S '''', S '''']]
              [S ''h'', S ''__placeholder_0'', S ''__placeholder_1''],
            [Loaded 1 3 None, ShortRows 3 1])"
    by (simp add: load_csv_force_width_def force_width_def adjust_header_def placeholders_def
        target_index_def fix_row_def report_def S_def decimal.simps numeral_2_eq_2)
  have w: "load_csv_force_width_resilient [[S ''h''], [S ''a'']] 44 3 None
     = Inr (DataFrame [[S ''a'', S '''', S '''']]
              [S ''h'', S ''__placeholder_0'', S ''__placeholder_1''],
            [Loaded 1 3 (Some 44), ShortRows 3 1])"
    by (simp add: load_csv_force_width_resilient_def force_width_def adjust_header_def
        placeholders_def target_index_def fix_row_def report_def S_def decimal.simps
        numeral_2_eq_2)
  show ?thesis
    using v w short_row_is_right_padded [OF a b, where header = "[S ''h'']" and merge_into = None and delim = 44]
    by simp
qed

subsection \<open>Idempotence\<close>

text \<open>
  Claim C8. When the header and every body row already have exactly \<open>expected_cols\<close>
  fields, both loaders return the header and the body rows unchanged and in order,
  whatever the merge target, and print no long-row or short-row line.
\<close>

theorem force_width_idempotent:
  assumes "int (length header) = expected_cols"
    and "\<forall>r\<in>set body. int (length r) = expected_cols"
  shows "load_csv_force_width (header # body) expected_cols merge_into
           = Inr (DataFrame body header, [Loaded (length body) expected_cols None])
       \<and> load_csv_force_width_resilient (header # body) delim expected_cols merge_into
           = Inr (DataFrame body header, [Loaded (length body) expected_cols (Some delim)])"
  using assms
  by (simp add: load_csv_force_width_def load_csv_force_width_resilient_def force_width_def
      adjust_header_exact fix_rows_exact report_def)

theorem force_width_idempotent_witness:
  "int (length [S ''x'', S ''y'']) = 2
   \<and> int (length [S ''1'', S ''2'']) = 2 \<and> int (length [S ''3'', S '''']) = 2
   \<and> load_csv_force_width ([S ''x'', S ''y''] # [[S ''1'', S ''2''], [S ''3'', S '''']]) 2
        (Some (S ''x''))
       = Inr (DataFrame [[S ''1'', S ''2''], [S ''3'', S '''']] [S ''x'', S ''y''],
              [Loaded 2 2 None])"
  using force_width_idempotent
    [of "[S ''x'', S ''y'']" 2 "[[S ''1'', S ''2''], [S ''3'', S '''']]" "Some (S ''x'')"]
  by simp

subsection \<open>Empty input\<close>

text \<open>
  Claim C10. When parsing yields no rows at all, both loaders return the empty frame
  (no rows, no column names, so no placeholder names) without raising, and print
  nothing: the counters are never created.
\<close>

theorem force_width_empty_input:
  "load_csv_force_width [] expected_cols merge_into = Inr (DataFrame [] [], [])
   \<and> load_csv_force_width_resilient [] delim expected_cols merge_into
       = Inr (DataFrame [] [], [])"
  by (simp add: load_csv_force_width_def load_csv_force_width_resilient_def force_width_def)

section \<open>Properties of the Byte Decoder\<close>

subsection \<open>Helper lemmas\<close>

lemma zero_ratio_200:
  assumes "length sample = 200"
  shows "(1 / 10 < zero_ratio sample) = (20 < count_list sample 0)"
proof -
  have "(1 / 10 < (of_nat (count_list sample 0) :: rat) / 200)
          = ((20::rat) < of_nat (count_list sample 0))"
    by (simp add: field_simps)
  also have "\<dots> = (20 < count_list sample 0)"
    by (metis of_nat_less_iff of_nat_numeral)
  finally show ?thesis using assms by (simp add: zero_ratio_def)
qed

lemma count_list_replicate:
  "count_list (replicate n x) y = (if x = y then n else 0)"
  by (induction n) auto

lemma replace_nul_free: "0 \<notin> set (replace_nul text)"
  by (simp add: replace_nul_def)

lemma try_encodings_nul_free:
  "try_encodings codec raw encodings rest last_err = Inr text \<Longrightarrow> 0 \<notin> set text"
proof (induction rest arbitrary: last_err)
  case Nil
  then show ?case by simp
next
  case (Cons enc rest)
  then show ?case by (auto simp add: replace_nul_free split: sum.splits)
qed

subsection \<open>The null-byte heuristic\<close>

text \<open>
  Claim C4, as amended. For bytes that start with neither UTF-16 byte-order mark,
  \<open>_looks_utf16\<close> answers true if and only if there are at least 200 bytes and the
  ratio of null bytes among the first 200 exceeds one tenth, that is, more than 20 of
  them are null. An input shorter than 200 bytes is never classified as UTF-16 by the
  heuristic.
\<close>

theorem looks_utf16_without_bom:
  assumes "\<not> (startswith raw [0xFF, 0xFE] \<or> startswith raw [0xFE, 0xFF])"
  shows "looks_utf16 raw = (200 \<le> length raw \<and> 1 / 10 < zero_ratio (take 200 raw))
       \<and> looks_utf16 raw = (200 \<le> length raw \<and> 20 < count_list (take 200 raw) 0)"
proof (cases "200 \<le> length raw")
  case True
  then have l: "length (take 200 raw) = 200" by simp
  have s: "slice_to 200 raw = take 200 raw"
    using True by (simp add: slice_to_def slice_bound_def)
  show ?thesis using assms True zero_ratio_200 [OF l] by (simp add: looks_utf16_def s)
next
  case False
  then show ?thesis using assms by (simp add: looks_utf16_def)
qed

theorem looks_utf16_without_bom_witness:
  "looks_utf16 ([0x41, 0] @ replicate 20 0 @ replicate 178 0x41)
   \<and> \<not> looks_utf16 ([0x41, 0] @ replicate 19 0 @ replicate 179 0x41)"
proof -
  have a: "\<not> (startswith ([0x41, 0] @ replicate 20 0 @ replicate 178 0x41) [0xFF, 0xFE :: byte]
           \<or> startswith ([0x41, 0] @ replicate 20 0 @ replicate 178 0x41) [0xFE, 0xFF :: byte])"
    by (simp add: startswith_def)
  have b: "\<not> (startswith ([0x41, 0] @ replicate 19 0 @ replicate 179 0x41) [0xFF, 0xFE :: byte]
           \<or> startswith ([0x41, 0] @ replicate 19 0 @ replicate 179 0x41) [0xFE, 0xFF :: byte])"
    by (simp add: startswith_def)
  show ?thesis
    using looks_utf16_without_bom [OF a, THEN conjunct2]
      looks_utf16_without_bom [OF b, THEN conjunct2]
    by (simp add: count_list_replicate)
qed

text \<open>
  The claim as stated takes the ratio over the whole input when the input is shorter
  than 200 bytes. The two bytes \<open>00 41\<close> carry no byte-order mark and half of them are
  null, yet \<open>_looks_utf16\<close> answers false: the \<open>len(raw) >= 200\<close> guard comes first.
\<close>

theorem looks_utf16_short_input_counterexample:
  "\<not> startswith [0, 0x41 :: byte] [0xFF, 0xFE] \<and> \<not> startswith [0, 0x41 :: byte] [0xFE, 0xFF]
   \<and> 1 / 10 < zero_ratio (slice_to 200 [0, 0x41]) \<and> \<not> looks_utf16 [0, 0x41]"
  by (simp add: startswith_def zero_ratio_def slice_to_def slice_bound_def looks_utf16_def)

subsection \<open>No null character in the decoded text\<close>

text \<open>
  Claim C6. Whenever \<open>_decode_text_safely\<close> returns text, no code point of that text
  is zero. This holds for every behaviour of the codecs, on the UTF-16 path and on the
  path through the list of encodings, because both end in \<open>text.replace('\x00', '')\<close>.
  The witness runs the fallback path: the UTF-16 codec raises and the first encoding of
  the list decodes byte by byte.
\<close>

theorem decoded_text_has_no_nul:
  assumes "decode_text_safely codec raw encodings = Inr text"
  shows "0 \<notin> set text"
  using assms
  by (auto simp add: decode_text_safely_def replace_nul_free split: if_splits sum.splits
      dest: try_encodings_nul_free)

theorem decoded_text_has_no_nul_witness:
  "decode_text_safely
     (\<lambda>enc replace raw.
        if replace then Inr (map unat raw) else Inl (LibraryError (S ''UnicodeDecodeError'') []))
     [0xFF, 0xFE, 0x41, 0] default_encodings = Inr [255, 254, 65]
   \<and> 0 \<notin> set [255, 254, 65 :: nat]"
proof -
  have h: "decode_text_safely
     (\<lambda>enc replace raw.
        if replace then Inr (map unat raw) else Inl (LibraryError (S ''UnicodeDecodeError'') []))
     [0xFF, 0xFE, 0x41, 0] default_encodings = Inr [255, 254, 65]"
    by (simp add: decode_text_safely_def looks_utf16_def startswith_def default_encodings_def
        replace_nul_def)
  show ?thesis using h decoded_text_has_no_nul [OF h] by simp
qed

section \<open>Properties of the Delimiter Inferencer\<close>

subsection \<open>The counter and the modal count\<close>

lemma counter_add_nonempty: "counter_add x c \<noteq> []"
  by (induction x c rule: counter_add.induct) auto

lemma Counter_snoc: "Counter (xs @ [x]) = counter_add x (Counter xs)"
  by (simp add: Counter_def)

lemma Counter_nonempty: "xs \<noteq> [] \<Longrightarrow> Counter xs \<noteq> []"
  by (cases xs rule: rev_cases) (simp_all add: Counter_snoc counter_add_nonempty)

lemma keys_counter_add:
  "map fst (counter_add x c) = (if x \<in> fst ` set c then map fst c else map fst c @ [x])"
  by (induction x c rule: counter_add.induct) auto

lemma map_of_counter_add:
  "map_of (counter_add x c) k
     = (if k = x then Some (case map_of c x of None \<Rightarrow> 1 | Some n \<Rightarrow> n + 1) else map_of c k)"
  by (induction x c rule: counter_add.induct) auto

lemma keys_Counter: "fst ` set (Counter xs) = set xs"
proof (induction xs rule: rev_induct)
  case Nil
  show ?case by (simp add: Counter_def)
next
  case (snoc x xs)
  have "set (map fst (Counter (xs @ [x]))) = insert x (set xs)"
    using snoc by (auto simp add: Counter_snoc keys_counter_add)
  then show ?case by simp
qed

lemma distinct_keys_Counter: "distinct (map fst (Counter xs))"
proof (induction xs rule: rev_induct)
  case Nil
  show ?case by (simp add: Counter_def)
next
  case (snoc x xs)
  then show ?case by (simp add: Counter_snoc keys_counter_add)
qed

lemma map_of_Counter:
  "map_of (Counter xs) k = (if k \<in> set xs then Some (count_list xs k) else None)"
proof (induction xs rule: rev_induct)
  case Nil
  show ?case by (simp add: Counter_def)
next
  case (snoc x xs)
  show ?case
  proof (cases "k = x")
    case True
    then show ?thesis using snoc
      by (simp add: Counter_snoc map_of_counter_add count_list_0_iff)
  next
    case False
    then show ?thesis using snoc by (simp add: Counter_snoc map_of_counter_add)
  qed
qed

lemma Counter_entry:
  "(k, n) \<in> set (Counter xs) \<longleftrightarrow> k \<in> set xs \<and> n = count_list xs k"
  using map_of_eq_Some_iff [OF distinct_keys_Counter, of xs k n]
  by (auto simp add: map_of_Counter split: if_splits)

lemma first_index_less: "k \<in> set xs \<Longrightarrow> first_index xs k < length xs"
  by (induction xs) auto

lemma first_index_append_old: "k \<in> set xs \<Longrightarrow> first_index (xs @ ys) k = first_index xs k"
  by (induction xs) auto

lemma first_index_append_new: "k \<notin> set xs \<Longrightarrow> first_index (xs @ [k]) k = length xs"
  by (induction xs) auto

lemma keys_in_first_seen_order:
  "sorted_wrt (\<lambda>a b. first_index xs a < first_index xs b) (map fst (Counter xs))"
proof (induction xs rule: rev_induct)
  case Nil
  show ?case by (simp add: Counter_def)
next
  case (snoc x xs)
  have old: "sorted_wrt (\<lambda>a b. first_index (xs @ [x]) a < first_index (xs @ [x]) b)
               (map fst (Counter xs))"
  proof (rule sorted_wrt_mono_rel [OF _ snoc])
    fix a b
    assume "a \<in> set (map fst (Counter xs))" "b \<in> set (map fst (Counter xs))"
      "first_index xs a < first_index xs b"
    then show "first_index (xs @ [x]) a < first_index (xs @ [x]) b"
      using keys_Counter [of xs] by (simp add: first_index_append_old)
  qed
  show ?case
  proof (cases "x \<in> set xs")
    case True
    then show ?thesis using old keys_Counter [of xs]
      by (simp add: Counter_snoc keys_counter_add)
  next
    case False
    have "\<forall>a\<in>set (map fst (Counter xs)). first_index (xs @ [x]) a < first_index (xs @ [x]) x"
      using False keys_Counter [of xs]
      by (simp add: first_index_append_old first_index_append_new first_index_less)
    then show ?thesis using old False keys_Counter [of xs]
      by (simp add: Counter_snoc keys_counter_add sorted_wrt_append)
  qed
qed

lemma first_largest_split:
  "\<exists>pre post. best # kvs = pre @ first_largest best kvs # post
      \<and> (\<forall>p\<in>set pre. snd p < snd (first_largest best kvs))
      \<and> (\<forall>p\<in>set post. snd p \<le> snd (first_largest best kvs))"
proof (induction kvs arbitrary: best)
  case Nil
  show ?case by (rule exI [of _ "[]"], rule exI [of _ "[]"]) simp
next
  case (Cons kv kvs)
  show ?case
  proof (cases "snd best < snd kv")
    case True
    obtain pre post where s: "kv # kvs = pre @ first_largest kv kvs # post"
        "\<forall>p\<in>set pre. snd p < snd (first_largest kv kvs)"
        "\<forall>p\<in>set post. snd p \<le> snd (first_largest kv kvs)"
      using Cons.IH [of kv] by blast
    have "kv \<in> set (pre @ first_largest kv kvs # post)" using s(1) by (metis list.set_intros(1))
    then have "snd kv \<le> snd (first_largest kv kvs)" using s(2,3) by auto
    then have b: "snd best < snd (first_largest kv kvs)" using True by simp
    have f: "first_largest best (kv # kvs) = first_largest kv kvs" using True by simp
    have "best # kv # kvs = (best # pre) @ first_largest kv kvs # post"
      using s(1) by simp
    moreover have "\<forall>p\<in>set (best # pre). snd p < snd (first_largest kv kvs)"
      using s(2) b by simp
    ultimately show ?thesis using s(3) unfolding f by blast
  next
    case False
    obtain pre post where s: "best # kvs = pre @ first_largest best kvs # post"
        "\<forall>p\<in>set pre. snd p < snd (first_largest best kvs)"
        "\<forall>p\<in>set post. snd p \<le> snd (first_largest best kvs)"
      using Cons.IH [of best] by blast
    have f: "first_largest best (kv # kvs) = first_largest best kvs" using False by simp
    show ?thesis
    proof (cases pre)
      case Nil
      have "best # kvs = first_largest best kvs # post" using s(1) unfolding Nil append_Nil .
      then have e: "first_largest best kvs = best" "post = kvs" by (metis list.inject)+
      have "best # kv # kvs = [] @ first_largest best (kv # kvs) # (kv # kvs)"
        using e f by simp
      moreover have "\<forall>p\<in>set (kv # kvs). snd p \<le> snd (first_largest best (kv # kvs))"
        using s(3) e f False by auto
      ultimately show ?thesis by (metis empty_iff list.set(1))
    next
      case (Cons b pre')
      have "best # kvs = b # (pre' @ first_largest best kvs # post)"
        using s(1) unfolding Cons append_Cons .
      then have e: "b = best" "kvs = pre' @ first_largest best kvs # post"
        by (metis list.inject)+
      have lt: "snd best < snd (first_largest best kvs)" using s(2) Cons e(1) by simp
      have "best # kv # kvs = (best # kv # pre') @ first_largest best (kv # kvs) # post"
        using e(2) f by simp
      moreover have "\<forall>p\<in>set (best # kv # pre'). snd p < snd (first_largest best (kv # kvs))"
        using s(2) Cons e(1) f lt False by auto
      moreover have "\<forall>p\<in>set post. snd p \<le> snd (first_largest best (kv # kvs))"
        using s(3) f by simp
      ultimately show ?thesis by blast
    qed
  qed
qed

lemma mode_of_modal:
  assumes "counts \<noteq> []"
  shows "\<exists>m. mode_of counts = Inr m \<and> modal_count counts m"
proof -
  obtain best kvs where c: "Counter counts = best # kvs"
    using Counter_nonempty [OF assms] by (cases "Counter counts") auto
  define e where "e = first_largest best kvs"
  obtain pre post where s: "best # kvs = pre @ e # post"
      "\<forall>p\<in>set pre. snd p < snd e" "\<forall>p\<in>set post. snd p \<le> snd e"
    using first_largest_split [of best kvs] unfolding e_def by blast
  have m: "mode_of counts = Inr (fst e)"
    using c by (simp add: mode_of_def most_common_1_def e_def)
  have ein: "(fst e, snd e) \<in> set (Counter counts)" using c s(1) by simp
  then have e1: "fst e \<in> set counts" "snd e = count_list counts (fst e)"
    using Counter_entry [of "fst e" "snd e" counts] by simp_all
  have place: "(k, count_list counts k) = e \<or> (k, count_list counts k) \<in> set pre
                 \<or> (k, count_list counts k) \<in> set post"
    if "k \<in> set counts" for k
  proof -
    have "(k, count_list counts k) \<in> set (Counter counts)" using that Counter_entry by blast
    then show ?thesis using c s(1) by auto
  qed
  have most: "count_list counts k \<le> count_list counts (fst e)" if "k \<in> set counts" for k
    using place [OF that] s(2,3) e1(2) by fastforce
  have srt: "sorted_wrt (\<lambda>a b. first_index counts a < first_index counts b)
               (map fst pre @ fst e # map fst post)"
    using keys_in_first_seen_order [of counts] c s(1) by simp
  have first: "first_index counts (fst e) \<le> first_index counts k"
    if kin: "k \<in> set counts" and keq: "count_list counts k = count_list counts (fst e)" for k
  proof -
    consider "(k, count_list counts k) = e" | "(k, count_list counts k) \<in> set pre"
      | "(k, count_list counts k) \<in> set post" using place [OF kin] by blast
    then show ?thesis
    proof cases
      case 1
      then have "k = fst e" by auto
      then show ?thesis by simp
    next
      case 2
      then have "count_list counts k < snd e" using s(2) by fastforce
      then show ?thesis using keq e1(2) by simp
    next
      case 3
      then have "k \<in> set (map fst post)" by force
      then have "first_index counts (fst e) < first_index counts k"
        using srt by (auto simp add: sorted_wrt_append)
      then show ?thesis by simp
    qed
  qed
  have "modal_count counts (fst e)"
    using e1(1) most first by (simp add: modal_count_def)
  then show ?thesis using m by blast
qed

subsection \<open>Scores and the sorted list\<close>

lemma mode_of_total: "counts \<noteq> [] \<Longrightarrow> \<exists>m. mode_of counts = Inr m"
  using mode_of_modal by blast

lemma score_of_modal:
  assumes "counts \<noteq> []"
  shows "\<exists>m. modal_count counts m
           \<and> score_of fdiv counts
               = Inr (int m, - fdiv (sum_list (map (\<lambda>c. (int c - int m) ^ 2) counts))
                                (length counts))"
proof -
  obtain m where m: "mode_of counts = Inr m" "modal_count counts m"
    using mode_of_modal [OF assms] by blast
  have "max (length counts) 1 = length counts" using assms by (cases counts) simp_all
  then show ?thesis using m by (auto simp add: score_of_def variance_def)
qed

lemma score_of_total: "counts \<noteq> [] \<Longrightarrow> \<exists>sc. score_of fdiv counts = Inr sc"
  using score_of_modal [where fdiv = fdiv and counts = counts] by blast

lemma dict_set_keys: "fst ` set (dict_set k v kvs) = insert k (fst ` set kvs)"
proof (induction kvs)
  case Nil
  show ?case by simp
next
  case (Cons p kvs)
  obtain k' v' where p: "p = (k', v')" by (cases p)
  show ?case using Cons p by (cases "k' = k") auto
qed

lemma dict_set_entries: "set (dict_set k v kvs) \<subseteq> insert (k, v) (set kvs)"
  by (induction kvs) (auto split: if_splits)

lemma score_candidates_scores:
  assumes "lines \<noteq> []"
  shows "\<exists>scores'. score_candidates fdiv lines ds scores = Inr scores'
           \<and> fst ` set scores' = fst ` set scores \<union> set ds
           \<and> (\<forall>kv\<in>set scores'. kv \<in> set scores
                 \<or> score_of fdiv (line_counts lines (fst kv)) = Inr (snd kv))"
proof (induction ds arbitrary: scores)
  case Nil
  then show ?case by simp
next
  case (Cons d ds)
  have ne: "line_counts lines d \<noteq> []" using assms by (simp add: line_counts_def)
  then obtain sc where sc: "score_of fdiv (line_counts lines d) = Inr sc"
    using score_of_total [where fdiv = fdiv] by blast
  obtain scores' where s: "score_candidates fdiv lines ds (dict_set d sc scores) = Inr scores'"
      "fst ` set scores' = fst ` set (dict_set d sc scores) \<union> set ds"
      "\<forall>kv\<in>set scores'. kv \<in> set (dict_set d sc scores)
                 \<or> score_of fdiv (line_counts lines (fst kv)) = Inr (snd kv)"
    using Cons.IH [of "dict_set d sc scores"] by blast
  have "score_candidates fdiv lines (d # ds) scores = Inr scores'"
    using ne sc s(1) by simp
  moreover have "fst ` set scores' = fst ` set scores \<union> set (d # ds)"
    using s(2) by (simp add: dict_set_keys)
  moreover have "\<forall>kv\<in>set scores'. kv \<in> set scores
                 \<or> score_of fdiv (line_counts lines (fst kv)) = Inr (snd kv)"
  proof
    fix kv assume "kv \<in> set scores'"
    then consider "kv \<in> set (dict_set d sc scores)"
      | "score_of fdiv (line_counts lines (fst kv)) = Inr (snd kv)" using s(3) by blast
    then show "kv \<in> set scores \<or> score_of fdiv (line_counts lines (fst kv)) = Inr (snd kv)"
    proof cases
      case 1
      then have "kv = (d, sc) \<or> kv \<in> set scores" using dict_set_entries [of d sc scores] by blast
      then show ?thesis using sc by auto
    next
      case 2
      then show ?thesis by simp
    qed
  qed
  ultimately show ?case by blast
qed

lemma score_candidates_no_lines: "score_candidates fdiv [] ds scores = Inr scores"
  by (induction ds) (simp_all add: line_counts_def)

lemma set_insert_desc: "set (insert_desc x ys) = insert x (set ys)"
  by (induction ys) auto

lemma set_sorted_desc: "set (sorted_desc kvs) = set kvs"
  by (induction kvs) (simp_all add: sorted_desc_def set_insert_desc)

lemma score_less_chain:
  "\<not> score_less a b \<Longrightarrow> \<not> score_less b c \<Longrightarrow> \<not> score_less a c"
  by (auto simp add: score_less_def)

lemma score_less_asym: "score_less a b \<Longrightarrow> \<not> score_less b a"
  by (auto simp add: score_less_def)

lemma insert_desc_head:
  "head_is_largest ys \<Longrightarrow> head_is_largest (insert_desc x ys)"
proof (cases ys)
  case Nil
  then show ?thesis by (simp add: head_is_largest_def)
next
  case (Cons y rest)
  assume h: "head_is_largest ys"
  show ?thesis
  proof (cases "score_less (snd x) (snd y)")
    case True
    then show ?thesis using h Cons
      by (auto simp add: head_is_largest_def set_insert_desc dest: score_less_asym)
  next
    case False
    then show ?thesis using h Cons
      by (auto simp add: head_is_largest_def dest: score_less_chain)
  qed
qed

lemma sorted_desc_head: "head_is_largest (sorted_desc kvs)"
proof (induction kvs)
  case Nil
  then show ?case by (simp add: sorted_desc_def head_is_largest_def)
next
  case (Cons kv kvs)
  then show ?case using insert_desc_head [of "sorted_desc kvs" kv] by (simp add: sorted_desc_def)
qed

lemma best_delimiter_largest:
  assumes "scores \<noteq> []"
  shows "\<exists>d sc. best_delimiter scores = Inr d \<and> (d, sc) \<in> set scores
           \<and> (\<forall>kv\<in>set scores. \<not> score_less sc (snd kv))"
proof -
  have "set (sorted_desc scores) \<noteq> {}" using assms by (simp add: set_sorted_desc)
  then obtain kv rest where c: "sorted_desc scores = kv # rest" by (cases "sorted_desc scores") auto
  have "\<forall>y\<in>set rest. \<not> score_less (snd kv) (snd y)"
    using sorted_desc_head [of scores] c by (simp add: head_is_largest_def)
  moreover have "\<not> score_less (snd kv) (snd kv)" by (simp add: score_less_def)
  ultimately have "\<forall>y\<in>set (sorted_desc scores). \<not> score_less (snd kv) (snd y)"
    using c by simp
  then have "\<forall>y\<in>set scores. \<not> score_less (snd kv) (snd y)" by (simp add: set_sorted_desc)
  moreover have "kv \<in> set scores" using c set_sorted_desc [of scores] by auto
  moreover have "best_delimiter scores = Inr (fst kv)" using c by (simp add: best_delimiter_def)
  ultimately show ?thesis by (metis prod.collapse)
qed

lemma select_largest_score:
  assumes "lines \<noteq> []" and "candidates \<noteq> []"
  shows "\<exists>scores d sc. score_candidates fdiv lines candidates [] = Inr scores \<and> scores \<noteq> []
           \<and> best_delimiter scores = Inr d \<and> d \<in> set candidates
           \<and> score_of fdiv (line_counts lines d) = Inr sc
           \<and> (\<forall>d'\<in>set candidates. \<exists>sc'. score_of fdiv (line_counts lines d') = Inr sc'
                  \<and> \<not> score_less sc sc')"
proof -
  obtain scores where s: "score_candidates fdiv lines candidates [] = Inr scores"
      "fst ` set scores = set candidates"
      "\<forall>kv\<in>set scores. score_of fdiv (line_counts lines (fst kv)) = Inr (snd kv)"
    using score_candidates_scores [OF assms(1), where ds = candidates and scores = "[]"
        and fdiv = fdiv] by auto
  have ne: "scores \<noteq> []" using s(2) assms(2) by auto
  obtain d sc where b: "best_delimiter scores = Inr d" "(d, sc) \<in> set scores"
      "\<forall>kv\<in>set scores. \<not> score_less sc (snd kv)"
    using best_delimiter_largest [OF ne] by blast
  have d: "d \<in> set candidates" using b(2) s(2) by (metis fst_conv imageI)
  have sc: "score_of fdiv (line_counts lines d) = Inr sc" using b(2) s(3) by fastforce
  have rest: "\<exists>sc'. score_of fdiv (line_counts lines d') = Inr sc' \<and> \<not> score_less sc sc'"
    if "d' \<in> set candidates" for d'
  proof -
    from that s(2) have "d' \<in> fst ` set scores" by simp
    then obtain kv where kv: "kv \<in> set scores" "d' = fst kv" by (rule imageE)
    have "score_of fdiv (line_counts lines d') = Inr (snd kv)" using s(3) kv by simp
    moreover have "\<not> score_less sc (snd kv)" using b(3) kv(1) by simp
    ultimately show ?thesis by blast
  qed
  show ?thesis
  proof (intro exI conjI)
    show "score_candidates fdiv lines candidates [] = Inr scores" by (rule s(1))
    show "scores \<noteq> []" by (rule ne)
    show "best_delimiter scores = Inr d" by (rule b(1))
    show "d \<in> set candidates" by (rule d)
    show "score_of fdiv (line_counts lines d) = Inr sc" by (rule sc)
    show "\<forall>d'\<in>set candidates. \<exists>sc'. score_of fdiv (line_counts lines d') = Inr sc'
                  \<and> \<not> score_less sc sc'" using rest by blast
  qed
qed

lemma select_largest:
  assumes "lines \<noteq> []" and "candidates \<noteq> []"
  shows "\<exists>scores d m. score_candidates fdiv lines candidates [] = Inr scores \<and> scores \<noteq> []
           \<and> best_delimiter scores = Inr d \<and> d \<in> set candidates
           \<and> modal_count (map (\<lambda>line. count_list line d) lines) m
           \<and> (\<forall>d'\<in>set candidates. \<exists>m'.
                 modal_count (map (\<lambda>line. count_list line d') lines) m'
                 \<and> (m' < m \<or> (m' = m
                      \<and> fdiv (sum_list (map (\<lambda>c. (int c - int m) ^ 2)
                                 (map (\<lambda>line. count_list line d) lines))) (length lines)
                        \<le> fdiv (sum_list (map (\<lambda>c. (int c - int m') ^ 2)
                                 (map (\<lambda>line. count_list line d') lines))) (length lines))))"
proof -
  obtain scores d sc where s: "score_candidates fdiv lines candidates [] = Inr scores"
      "scores \<noteq> []" "best_delimiter scores = Inr d" "d \<in> set candidates"
      "score_of fdiv (line_counts lines d) = Inr sc"
      "\<forall>d'\<in>set candidates. \<exists>sc'. score_of fdiv (line_counts lines d') = Inr sc'
                  \<and> \<not> score_less sc sc'"
    using select_largest_score [OF assms, where fdiv = fdiv] by blast
  have ne: "line_counts lines k \<noteq> []" for k using assms(1) by (simp add: line_counts_def)
  obtain m where m: "modal_count (line_counts lines d) m"
      "score_of fdiv (line_counts lines d)
         = Inr (int m, - fdiv (sum_list (map (\<lambda>c. (int c - int m) ^ 2) (line_counts lines d)))
                          (length (line_counts lines d)))"
    using score_of_modal [OF ne [of d], where fdiv = fdiv] by blast
  define A where "A = fdiv (sum_list (map (\<lambda>c. (int c - int m) ^ 2) (line_counts lines d)))
                           (length lines)"
  have sc: "sc = (int m, - A)"
    using s(5) m(2) by (simp add: line_counts_def A_def)
  have rest: "\<exists>m'. modal_count (line_counts lines d') m'
                 \<and> (m' < m \<or> (m' = m
                      \<and> A \<le> fdiv (sum_list (map (\<lambda>c. (int c - int m') ^ 2) (line_counts lines d')))
                           (length lines)))"
    if cand: "d' \<in> set candidates" for d'
  proof -
    obtain sc' where o: "score_of fdiv (line_counts lines d') = Inr sc'" "\<not> score_less sc sc'"
      using s(6) cand by blast
    obtain m' where m': "modal_count (line_counts lines d') m'"
        "score_of fdiv (line_counts lines d')
           = Inr (int m', - fdiv (sum_list (map (\<lambda>c. (int c - int m') ^ 2) (line_counts lines d')))
                            (length (line_counts lines d')))"
      using score_of_modal [OF ne [of d'], where fdiv = fdiv] by blast
    define B where "B = fdiv (sum_list (map (\<lambda>c. (int c - int m') ^ 2) (line_counts lines d')))
                             (length lines)"
    have sc': "sc' = (int m', - B)"
      using o(1) m'(2) by (simp add: line_counts_def B_def)
    have "\<not> (int m < int m' \<or> (int m = int m' \<and> - A < - B))"
      using o(2) by (simp add: sc sc' score_less_def)
    then have "m' < m \<or> (m' = m \<and> A \<le> B)" by (simp add: not_less) linarith
    then show ?thesis using m'(1) unfolding B_def by blast
  qed
  show ?thesis
  proof (intro exI conjI)
    show "score_candidates fdiv lines candidates [] = Inr scores" by (rule s(1))
    show "scores \<noteq> []" by (rule s(2))
    show "best_delimiter scores = Inr d" by (rule s(3))
    show "d \<in> set candidates" by (rule s(4))
    show "modal_count (map (\<lambda>line. count_list line d) lines) m"
      using m(1) by (simp add: line_counts_def)
    show "\<forall>d'\<in>set candidates. \<exists>m'.
                 modal_count (map (\<lambda>line. count_list line d') lines) m'
                 \<and> (m' < m \<or> (m' = m
                      \<and> fdiv (sum_list (map (\<lambda>c. (int c - int m) ^ 2)
                                 (map (\<lambda>line. count_list line d) lines))) (length lines)
                        \<le> fdiv (sum_list (map (\<lambda>c. (int c - int m') ^ 2)
                                 (map (\<lambda>line. count_list line d') lines))) (length lines)))"
      using rest unfolding line_counts_def A_def by blast
  qed
qed


subsection \<open>Samples without any candidate\<close>

lemmas eval_defs = detect_delimiter_def detect_delim_from_text_def default_candidates_def
  nonblank_def py_strip_def is_space_def S_def line_counts_def score_of_def mode_of_def
  Counter_def most_common_1_def variance_def exact_div_def best_delimiter_def sorted_desc_def
  score_less_def splitlines_def is_linebreak_def slice_to_def slice_bound_def comma_def
  delimiter_guess_def

lemma line_counts_absent:
  "\<forall>line\<in>set lines. d \<notin> set line \<Longrightarrow> line_counts lines d = replicate (length lines) 0"
  by (induction lines) (simp_all add: line_counts_def)

lemma foldl_counter_zeros:
  "foldl (\<lambda>c x. counter_add x c) [(0, k)] (replicate n 0) = [(0, k + n)]"
  by (induction n arbitrary: k) simp_all

lemma score_of_zeros: "score_of fdiv (replicate (Suc n) 0) = Inr (0, - fdiv 0 (Suc n))"
  using foldl_counter_zeros [of 1 n]
  by (simp add: score_of_def mode_of_def most_common_1_def Counter_def variance_def
      sum_list_replicate)

lemma no_candidate_scores:
  assumes "\<forall>line\<in>set lines. \<forall>d\<in>set default_candidates. d \<notin> set line" and "lines \<noteq> []"
  shows "\<exists>z. score_candidates fdiv lines default_candidates []
           = Inr [(44, z), (59, z), (124, z), (9, z)]"
proof -
  obtain n where n: "length lines = Suc n" using assms(2) by (cases lines) auto
  have "line_counts lines d = replicate (Suc n) 0" if "d \<in> set default_candidates" for d
    using line_counts_absent [of lines d] assms(1) that n by simp
  then have c: "line_counts lines 44 = replicate (Suc n) 0" "line_counts lines 59 = replicate (Suc n) 0"
      "line_counts lines 124 = replicate (Suc n) 0" "line_counts lines 9 = replicate (Suc n) 0"
    by (simp_all add: default_candidates_def)
  have "score_candidates fdiv lines default_candidates []
           = Inr [(44, (0, - fdiv 0 (Suc n))), (59, (0, - fdiv 0 (Suc n))),
                  (124, (0, - fdiv 0 (Suc n))), (9, (0, - fdiv 0 (Suc n)))]"
    by (simp add: default_candidates_def c score_of_zeros del: replicate.simps)
  then show ?thesis by blast
qed

lemma no_candidate_choice:
  assumes "\<forall>line\<in>set lines. \<forall>d\<in>set default_candidates. d \<notin> set line"
  shows "(case score_candidates fdiv lines default_candidates [] of
            Inl e \<Rightarrow> Inl e
          | Inr scores \<Rightarrow> if scores = [] then Inr comma else best_delimiter scores) = Inr comma"
proof (cases "lines = []")
  case True
  then show ?thesis by (simp add: score_candidates_no_lines)
next
  case False
  obtain z where "score_candidates fdiv lines default_candidates []
           = Inr [(44, z), (59, z), (124, z), (9, z)]"
    using no_candidate_scores [OF assms False] by blast
  then show ?thesis
    by (simp add: best_delimiter_def sorted_desc_def score_less_def comma_def)
qed

subsection \<open>The selected delimiter\<close>

text \<open>
  Claim C3, as amended. For a sample with at least one non-blank line (and a non-empty
  list of candidates), both inferencers return a candidate \<open>d\<close> with this property.
  Let the per-line counts of a candidate be its numbers of occurrences in the non-blank
  lines, its modal count the most frequent of them, and its variance the float that
  \<open>fdiv\<close> makes of the sum of the squared distances of the counts from the modal count,
  divided by the number of non-blank lines. Then every candidate has a smaller modal
  count than \<open>d\<close>, or the same modal count and a variance that is not smaller. The
  statement is in terms of the lists and of \<open>fdiv\<close> only, and holds for every \<open>fdiv\<close>:
  variances that the division rounds to the same float count as equal. Every candidate
  is scored, also one that occurs nowhere in the sample; a candidate is left out only
  when the sample has no non-blank line at all.
\<close>

theorem delimiter_maximizes_score:
  assumes "candidates \<noteq> []"
    and "filter nonblank sample_lines \<noteq> []"
    and "filter nonblank (slice_to 200 (splitlines False text)) \<noteq> []"
  shows "(\<exists>d m. detect_delimiter fdiv sample_lines candidates = Inr (Some d)
            \<and> d \<in> set candidates
            \<and> modal_count (map (\<lambda>line. count_list line d) (filter nonblank sample_lines)) m
            \<and> (\<forall>d'\<in>set candidates. \<exists>m'.
                 modal_count (map (\<lambda>line. count_list line d') (filter nonblank sample_lines)) m'
                 \<and> (m' < m \<or> (m' = m
                      \<and> fdiv (sum_list (map (\<lambda>c. (int c - int m) ^ 2)
                                 (map (\<lambda>line. count_list line d) (filter nonblank sample_lines))))
                           (length (filter nonblank sample_lines))
                        \<le> fdiv (sum_list (map (\<lambda>c. (int c - int m') ^ 2)
                                 (map (\<lambda>line. count_list line d') (filter nonblank sample_lines))))
                           (length (filter nonblank sample_lines))))))
       \<and> (\<exists>d m. detect_delim_from_text fdiv text candidates = Inr d
            \<and> d \<in> set candidates
            \<and> modal_count (map (\<lambda>line. count_list line d)
                              (filter nonblank (slice_to 200 (splitlines False text)))) m
            \<and> (\<forall>d'\<in>set candidates. \<exists>m'.
                 modal_count (map (\<lambda>line. count_list line d')
                                (filter nonblank (slice_to 200 (splitlines False text)))) m'
                 \<and> (m' < m \<or> (m' = m
                      \<and> fdiv (sum_list (map (\<lambda>c. (int c - int m) ^ 2)
                                 (map (\<lambda>line. count_list line d)
                                    (filter nonblank (slice_to 200 (splitlines False text))))))
                           (length (filter nonblank (slice_to 200 (splitlines False text))))
                        \<le> fdiv (sum_list (map (\<lambda>c. (int c - int m') ^ 2)
                                 (map (\<lambda>line. count_list line d')
                                    (filter nonblank (slice_to 200 (splitlines False text))))))
                           (length (filter nonblank (slice_to 200 (splitlines False text))))))))"
proof (rule conjI)
  define L where "L = filter nonblank sample_lines"
  have ne: "L \<noteq> []" using assms(2) by (simp add: L_def)
  obtain scores d m where s:
      "score_candidates fdiv L candidates [] = Inr scores" "scores \<noteq> []"
      "best_delimiter scores = Inr d" "d \<in> set candidates"
      "modal_count (map (\<lambda>line. count_list line d) L) m"
      "\<forall>d'\<in>set candidates. \<exists>m'.
                 modal_count (map (\<lambda>line. count_list line d') L) m'
                 \<and> (m' < m \<or> (m' = m
                      \<and> fdiv (sum_list (map (\<lambda>c. (int c - int m) ^ 2)
                                 (map (\<lambda>line. count_list line d) L))) (length L)
                        \<le> fdiv (sum_list (map (\<lambda>c. (int c - int m') ^ 2)
                                 (map (\<lambda>line. count_list line d') L))) (length L)))"
    using select_largest [OF ne assms(1), where fdiv = fdiv] by blast
  have "detect_delimiter fdiv sample_lines candidates = Inr (Some d)"
    using s(1,2,3) by (simp add: detect_delimiter_def L_def)
  then show "\<exists>d m. detect_delimiter fdiv sample_lines candidates = Inr (Some d)
            \<and> d \<in> set candidates
            \<and> modal_count (map (\<lambda>line. count_list line d) (filter nonblank sample_lines)) m
            \<and> (\<forall>d'\<in>set candidates. \<exists>m'.
                 modal_count (map (\<lambda>line. count_list line d') (filter nonblank sample_lines)) m'
                 \<and> (m' < m \<or> (m' = m
                      \<and> fdiv (sum_list (map (\<lambda>c. (int c - int m) ^ 2)
                                 (map (\<lambda>line. count_list line d) (filter nonblank sample_lines))))
                           (length (filter nonblank sample_lines))
                        \<le> fdiv (sum_list (map (\<lambda>c. (int c - int m') ^ 2)
                                 (map (\<lambda>line. count_list line d') (filter nonblank sample_lines))))
                           (length (filter nonblank sample_lines)))))"
    using s(4,5,6) unfolding L_def by blast
next
  define L where "L = filter nonblank (slice_to 200 (splitlines False text))"
  have ne: "L \<noteq> []" using assms(3) by (simp add: L_def)
  obtain scores d m where s:
      "score_candidates fdiv L candidates [] = Inr scores" "scores \<noteq> []"
      "best_delimiter scores = Inr d" "d \<in> set candidates"
      "modal_count (map (\<lambda>line. count_list line d) L) m"
      "\<forall>d'\<in>set candidates. \<exists>m'.
                 modal_count (map (\<lambda>line. count_list line d') L) m'
                 \<and> (m' < m \<or> (m' = m
                      \<and> fdiv (sum_list (map (\<lambda>c. (int c - int m) ^ 2)
                                 (map (\<lambda>line. count_list line d) L))) (length L)
                        \<le> fdiv (sum_list (map (\<lambda>c. (int c - int m') ^ 2)
                                 (map (\<lambda>line. count_list line d') L))) (length L)))"
    using select_largest [OF ne assms(1), where fdiv = fdiv] by blast
  have "detect_delim_from_text fdiv text candidates = Inr d"
    using s(1,2,3) by (simp add: detect_delim_from_text_def L_def)
  then show "\<exists>d m. detect_delim_from_text fdiv text candidates = Inr d
            \<and> d \<in> set candidates
            \<and> modal_count (map (\<lambda>line. count_list line d)
                              (filter nonblank (slice_to 200 (splitlines False text)))) m
            \<and> (\<forall>d'\<in>set candidates. \<exists>m'.
                 modal_count (map (\<lambda>line. count_list line d')
                                (filter nonblank (slice_to 200 (splitlines False text)))) m'
                 \<and> (m' < m \<or> (m' = m
                      \<and> fdiv (sum_list (map (\<lambda>c. (int c - int m) ^ 2)
                                 (map (\<lambda>line. count_list line d)
                                    (filter nonblank (slice_to 200 (splitlines False text))))))
                           (length (filter nonblank (slice_to 200 (splitlines False text))))
                        \<le> fdiv (sum_list (map (\<lambda>c. (int c - int m') ^ 2)
                                 (map (\<lambda>line. count_list line d')
                                    (filter nonblank (slice_to 200 (splitlines False text))))))
                           (length (filter nonblank (slice_to 200 (splitlines False text)))))))"
    using s(4,5,6) unfolding L_def by blast
qed

theorem delimiter_maximizes_score_witness:
  "detect_delimiter exact_div [S ''a;b;c'', S ''d;e,f''] default_candidates = Inr (Some 59)
   \<and> modal_count (map (\<lambda>line. count_list line 59) (filter nonblank [S ''a;b;c'', S ''d;e,f''])) 2
   \<and> (\<exists>d m. detect_delimiter exact_div [S ''a;b;c'', S ''d;e,f''] default_candidates
                = Inr (Some d)
            \<and> d \<in> set default_candidates
            \<and> modal_count (map (\<lambda>line. count_list line d)
                              (filter nonblank [S ''a;b;c'', S ''d;e,f''])) m
            \<and> (\<forall>d'\<in>set default_candidates. \<exists>m'.
                 modal_count (map (\<lambda>line. count_list line d')
                                (filter nonblank [S ''a;b;c'', S ''d;e,f''])) m'
                 \<and> (m' < m \<or> (m' = m
                      \<and> exact_div (sum_list (map (\<lambda>c. (int c - int m) ^ 2)
                                 (map (\<lambda>line. count_list line d)
                                    (filter nonblank [S ''a;b;c'', S ''d;e,f'']))))
                           (length (filter nonblank [S ''a;b;c'', S ''d;e,f'']))
                        \<le> exact_div (sum_list (map (\<lambda>c. (int c - int m') ^ 2)
                                 (map (\<lambda>line. count_list line d')
                                    (filter nonblank [S ''a;b;c'', S ''d;e,f'']))))
                           (length (filter nonblank [S ''a;b;c'', S ''d;e,f'']))))))"
proof -
  have a: "default_candidates \<noteq> []" by (simp add: default_candidates_def)
  have b: "filter nonblank [S ''a;b;c'', S ''d;e,f''] \<noteq> []"
    by (simp add: nonblank_def py_strip_def is_space_def S_def)
  have c: "filter nonblank (slice_to 200 (splitlines False (S ''a;b''))) \<noteq> []"
    by (simp add: eval_defs)
  have v: "detect_delimiter exact_div [S ''a;b;c'', S ''d;e,f''] default_candidates
             = Inr (Some 59)"
    by (simp add: eval_defs)
  have m: "modal_count (map (\<lambda>line. count_list line 59)
             (filter nonblank [S ''a;b;c'', S ''d;e,f''])) 2"
    by (simp add: modal_count_def nonblank_def py_strip_def is_space_def S_def)
  show ?thesis
    using v m delimiter_maximizes_score [OF a b c, where fdiv = exact_div, THEN conjunct1] by blast
qed

text \<open>
  The claim as stated restricts the choice to candidates that occur in the sample.
  In the sample \<open>"a,b"\<close>, \<open>"c"\<close>, \<open>"d"\<close> the comma occurs and the semicolon does not;
  the comma has modal count 0 and variance \<open>1/3\<close>, the semicolon modal count 0 and
  variance 0, and the semicolon is returned.
\<close>

theorem absent_candidate_wins_counterexample:
  "detect_delimiter exact_div [S ''a,b'', S ''c'', S ''d''] default_candidates = Inr (Some 59)
   \<and> count_list (S ''a,b'') 44 = 1
   \<and> count_list (S ''a,b'') 59 = 0 \<and> count_list (S ''c'') 59 = 0 \<and> count_list (S ''d'') 59 = 0
   \<and> detect_delim_from_text exact_div (S ''a,b'' @ [10] @ S ''c'' @ [10] @ S ''d'')
        default_candidates = Inr 59"
  by (simp add: eval_defs)

subsection \<open>The default delimiter\<close>

text \<open>
  Claim C9. When no candidate occurs in any line of the sample, the delimiter is the
  comma: \<open>_detect_delimiter(head_lines) or ','\<close> in read_csv.py and
  \<open>_detect_delim_from_text\<close> in read_csv3.py, whether all lines are blank (no scores)
  or not (four equal scores, and the comma is the first candidate).
\<close>

theorem no_candidate_gives_comma:
  assumes "\<forall>line\<in>set sample_lines. \<forall>d\<in>set default_candidates. d \<notin> set line"
    and "\<forall>line\<in>set (slice_to 200 (splitlines False text)). \<forall>d\<in>set default_candidates. d \<notin> set line"
  shows "delimiter_guess fdiv sample_lines = Inr comma
       \<and> detect_delim_from_text fdiv text default_candidates = Inr comma"
proof
  have a: "\<forall>line\<in>set (filter nonblank sample_lines). \<forall>d\<in>set default_candidates. d \<notin> set line"
    using assms(1) by simp
  show "delimiter_guess fdiv sample_lines = Inr comma"
  proof (cases "filter nonblank sample_lines = []")
    case True
    then show ?thesis
      by (simp add: delimiter_guess_def detect_delimiter_def score_candidates_no_lines)
  next
    case False
    obtain z where "score_candidates fdiv (filter nonblank sample_lines) default_candidates []
           = Inr [(44, z), (59, z), (124, z), (9, z)]"
      using no_candidate_scores [OF a False] by blast
    then show ?thesis
      by (simp add: delimiter_guess_def detect_delimiter_def
          best_delimiter_def sorted_desc_def score_less_def comma_def)
  qed
next
  have b: "\<forall>line\<in>set (filter nonblank (slice_to 200 (splitlines False text))).
             \<forall>d\<in>set default_candidates. d \<notin> set line"
    using assms(2) by simp
  show "detect_delim_from_text fdiv text default_candidates = Inr comma"
    using no_candidate_choice [OF b] by (simp add: detect_delim_from_text_def)
qed

theorem no_candidate_gives_comma_witness:
  "delimiter_guess exact_div [S ''abc'', S '' ''] = Inr comma
   \<and> detect_delim_from_text exact_div (S ''abc'' @ [10] @ S ''de'') default_candidates = Inr comma"
proof -
  have a: "\<forall>line\<in>set [S ''abc'', S '' '']. \<forall>d\<in>set default_candidates. d \<notin> set line"
    by (simp add: default_candidates_def S_def)
  have b: "\<forall>line\<in>set (slice_to 200 (splitlines False (S ''abc'' @ [10] @ S ''de''))).
             \<forall>d\<in>set default_candidates. d \<notin> set line"
    by (simp add: default_candidates_def S_def splitlines_def is_linebreak_def slice_to_def
        slice_bound_def)
  show ?thesis using no_candidate_gives_comma [OF a b] .
qed

section \<open>Properties of the Fallback Orchestrator\<close>

subsection \<open>Helper lemmas\<close>




subsection \<open>The aggregate error\<close>




end
